theory Spec2Isabelle
  imports Main "HOL-Library.Multiset"
begin

section \<open>Data model of ranger.go\<close>

text \<open>
  \<^verbatim>\<open>type Range struct { Start int; Stop int }\<close>.  Go's \<open>int\<close> is modelled as
  \<open>int\<close>: the only arithmetic of the package is \<open>maxLen - y\<close> under the guard
  \<open>0 \<le> y \<le> maxLen\<close>, which cannot overflow; the width of \<open>int\<close> only shows in
  what \<open>strconv.Atoi\<close> accepts, and is written out there.
\<close>

record Range =
  Start :: int
  Stop :: int

text \<open>
  The errors the package can return: the sentinel \<open>Error\<close> (\<open>"invalid range"\<close>), the
  \<open>*strconv.NumError\<close> of \<open>strconv.Atoi\<close> passed on unchanged (its \<open>Num\<close> field, the
  text that was parsed, and its \<open>Err\<close> field), and the error \<open>ParseHeader\<close> formats
  from the raw \<open>Content-Length\<close> values.
\<close>

datatype num_err = ErrSyntax | ErrRange

datatype error =
    InvalidRange
  | NumError string num_err
  | InvalidContentLength "string list"

subsection \<open>Range.overlaps, Range.merge, rangeSlice.Less\<close>

definition overlaps :: "Range \<Rightarrow> Range \<Rightarrow> bool" where
  "overlaps b c = (Start b \<le> Stop c \<and> Start c \<le> Stop b)"

definition merge :: "Range \<Rightarrow> Range \<Rightarrow> Range" where
  "merge b c = \<lparr>Start = Start b, Stop = Stop c\<rparr>"

definition Less :: "Range \<Rightarrow> Range \<Rightarrow> bool" where
  "Less bi bj =
     (if Start bi < Start bj then True
      else if Start bi = Start bj then Stop bi < Stop bj
      else False)"

subsection \<open>The library functions the package calls\<close>

text \<open>
  \<open>strings.TrimPrefix(s, prefix)\<close>: \<open>s\<close> without the leading \<open>prefix\<close> if it
  starts with it, \<open>s\<close> itself otherwise.
\<close>

definition TrimPrefix :: "string \<Rightarrow> string \<Rightarrow> string" where
  "TrimPrefix s prefix =
     (if take (length prefix) s = prefix then drop (length prefix) s else s)"

text \<open>
  \<open>strings.Split(s, sep)\<close> for a separator of one byte (the package splits on
  \<open>","\<close> and on \<open>"-"\<close>): the pieces between the separators, so \<open>k\<close> separators give
  \<open>k + 1\<close> pieces and the empty string gives one empty piece.  The second branch of the
  \<open>case\<close> below is the one that runs; the first only makes the function total.
\<close>

fun Split :: "string \<Rightarrow> char \<Rightarrow> string list" where
  "Split [] sep = [[]]"
| "Split (c # cs) sep =
     (if c = sep then [] # Split cs sep
      else (case Split cs sep of [] \<Rightarrow> [[c]] | p # ps \<Rightarrow> (c # p) # ps))"

text \<open>
  \<open>strconv.Atoi\<close> on a platform with 64-bit \<open>int\<close>, following \<open>ParseInt(s, 10, 0)\<close>
  and \<open>ParseUint\<close> (the fast path of \<open>Atoi\<close> for short strings computes the same
  result): an optional sign \<open>+\<close> or \<open>-\<close>, then one or more decimal digits.  The
  digit loop stops with \<open>ErrSyntax\<close> at the first byte that is no digit and with
  \<open>ErrRange\<close> as soon as the value read so far leaves 64 unsigned bits; a value
  outside \<open>[-2^63, 2^63 - 1]\<close> is \<open>ErrRange\<close> too.  The error carries the whole
  input string.
\<close>

definition intSize :: nat where
  "intSize = 64"

definition is_digit :: "char \<Rightarrow> bool" where
  "is_digit c = (c \<in> set ''0123456789'')"

definition digit_val :: "char \<Rightarrow> nat" where
  "digit_val c = (of_char c :: nat) - 48"

fun parseDigits :: "nat \<Rightarrow> string \<Rightarrow> num_err + nat" where
  "parseDigits n [] = Inr n"
| "parseDigits n (c # cs) =
     (if \<not> is_digit c then Inl ErrSyntax
      else if n \<ge> (2 ^ intSize - 1) div 10 + 1 then Inl ErrRange
      else (let n1 = n * 10 + digit_val c
            in if n1 > 2 ^ intSize - 1 then Inl ErrRange else parseDigits n1 cs))"

definition ParseUint :: "string \<Rightarrow> num_err + nat" where
  "ParseUint s = (if s = [] then Inl ErrSyntax else parseDigits 0 s)"

definition ParseInt :: "string \<Rightarrow> num_err + int" where
  "ParseInt s =
     (if s = [] then Inl ErrSyntax
      else (let neg = (hd s = CHR ''-'');
                s' = (if hd s = CHR ''+'' \<or> hd s = CHR ''-'' then tl s else s)
            in case ParseUint s' of
                 Inl e \<Rightarrow> Inl e
               | Inr un \<Rightarrow>
                   if \<not> neg \<and> un \<ge> 2 ^ (intSize - 1) then Inl ErrRange
                   else if neg \<and> un > 2 ^ (intSize - 1) then Inl ErrRange
                   else Inr (if neg then - int un else int un)))"

definition Atoi :: "string \<Rightarrow> error + int" where
  "Atoi s = (case ParseInt s of Inl e \<Rightarrow> Inl (NumError s e) | Inr n \<Rightarrow> Inr n)"

text \<open>
  \<open>sort.Sort(rangeSlice(br))\<close>: the slice reordered so that no element is \<open>Less\<close>
  than an earlier one.  \<open>Less\<close> compares \<open>(Start, Stop)\<close> lexicographically, so two
  ranges that are not \<open>Less\<close> either way are equal, and the sorted order of a slice
  is unique (lemma \<open>sortRanges_unique\<close> below): insertion by \<open>Less\<close> computes what
  any sorting algorithm returns.
\<close>

fun insertRange :: "Range \<Rightarrow> Range list \<Rightarrow> Range list" where
  "insertRange x [] = [x]"
| "insertRange x (y # ys) = (if Less y x then y # insertRange x ys else x # y # ys)"

fun sortRanges :: "Range list \<Rightarrow> Range list" where
  "sortRanges [] = []"
| "sortRanges (x # xs) = insertRange x (sortRanges xs)"

subsection \<open>mergeRanges\<close>

text \<open>
  The loop \<open>for i := 1; i < len(br); i++\<close> of \<open>mergeRanges\<close>, with the slice
  \<open>result\<close> and the variable \<open>cur\<close> as arguments and the rest of \<open>br\<close> still to
  visit; at the end of the loop \<open>cur\<close> is appended.  In \<open>mergeRanges\<close> itself the sorted
  slice has at least two elements where \<open>cur := br[0]\<close> is read, so the branch for the
  empty list only makes the definition total.  The sort reorders the caller's slice in
  place; \<open>Parse\<close> passes a slice of its own, so nothing else sees that.
\<close>

fun mergeLoop :: "Range list \<Rightarrow> Range \<Rightarrow> Range list \<Rightarrow> Range list" where
  "mergeLoop result cur [] = result @ [cur]"
| "mergeLoop result cur (b # bs) =
     (if overlaps cur b then mergeLoop result (merge cur b) bs
      else mergeLoop (result @ [cur]) b bs)"

definition mergeRanges :: "Range list \<Rightarrow> Range list" where
  "mergeRanges br =
     (if length br < 2 then br
      else (case sortRanges br of
              [] \<Rightarrow> []
            | cur # rest \<Rightarrow> mergeLoop [] cur rest))"

subsection \<open>Parse\<close>

text \<open>
  The body of the inner loop of \<open>Parse\<close> for one comma-separated token \<open>r\<close>: the
  range it appends to \<open>result\<close>, or the error \<open>Parse\<close> returns.
\<close>

definition parseRange :: "string \<Rightarrow> int \<Rightarrow> error + Range" where
  "parseRange r maxLen =
     (case Split r CHR ''-'' of
        [p0, p1] \<Rightarrow>
          if p0 = [] then
            (case Atoi p1 of
               Inl err \<Rightarrow> Inl err
             | Inr y \<Rightarrow>
                 if y < 0 \<or> y > maxLen then Inl InvalidRange
                 else Inr \<lparr>Start = maxLen - y, Stop = maxLen\<rparr>)
          else if p1 = [] then
            (case Atoi p0 of
               Inl err \<Rightarrow> Inl err
             | Inr x \<Rightarrow>
                 if x < 0 \<or> x > maxLen then Inl InvalidRange
                 else Inr \<lparr>Start = x, Stop = maxLen\<rparr>)
          else
            (case Atoi p0 of
               Inl err \<Rightarrow> Inl err
             | Inr x \<Rightarrow>
                 (case Atoi p1 of
                    Inl err \<Rightarrow> Inl err
                  | Inr y \<Rightarrow>
                      if x < 0 \<or> y < 0 \<or> x > maxLen \<or> y > maxLen \<or> x > y
                      then Inl InvalidRange
                      else Inr \<lparr>Start = x, Stop = y\<rparr>))
      | _ \<Rightarrow> Inl InvalidRange)"

text \<open>The inner loop over the tokens of one entry, threading \<open>result\<close>.\<close>

fun parseTokens :: "string list \<Rightarrow> int \<Rightarrow> Range list \<Rightarrow> error + Range list" where
  "parseTokens [] maxLen result = Inr result"
| "parseTokens (r # rs) maxLen result =
     (case parseRange r maxLen of
        Inl err \<Rightarrow> Inl err
      | Inr rg \<Rightarrow> parseTokens rs maxLen (result @ [rg]))"

text \<open>The outer loop over the entries of \<open>ranges\<close>.\<close>

fun parseEntries :: "string list \<Rightarrow> string \<Rightarrow> int \<Rightarrow> Range list \<Rightarrow> error + Range list" where
  "parseEntries [] prefix maxLen result = Inr result"
| "parseEntries (r # rs) prefix maxLen result =
     (case parseTokens (Split (TrimPrefix r prefix) CHR '','') maxLen result of
        Inl err \<Rightarrow> Inl err
      | Inr result' \<Rightarrow> parseEntries rs prefix maxLen result')"

definition Parse :: "string list \<Rightarrow> string \<Rightarrow> int \<Rightarrow> error + Range list" where
  "Parse ranges prefix maxLen =
     (case parseEntries ranges prefix maxLen [] of
        Inl err \<Rightarrow> Inl err
      | Inr result \<Rightarrow> Inr (mergeRanges result))"

subsection \<open>ParseHeader\<close>

text \<open>
  \<open>http.Header\<close> is \<open>map[string][]string\<close>.  \<open>h[key]\<close> of a missing key is the nil
  slice; \<open>h.Get(key)\<close> is the first value stored under the canonical form of \<open>key\<close>,
  or \<open>""\<close> when there is none (\<open>"Content-Length"\<close> is in canonical form already).
\<close>

type_synonym Header = "string \<rightharpoonup> string list"

definition index :: "Header \<Rightarrow> string \<Rightarrow> string list" where
  "index h key = (case h key of None \<Rightarrow> [] | Some vs \<Rightarrow> vs)"

definition Get :: "Header \<Rightarrow> string \<Rightarrow> string" where
  "Get h key = (case index h key of [] \<Rightarrow> [] | v # _ \<Rightarrow> v)"

definition ParseHeader :: "Header \<Rightarrow> error + Range list" where
  "ParseHeader h =
     (case Atoi (Get h ''Content-Length'') of
        Inl err \<Rightarrow> Inl (InvalidContentLength (index h ''Content-Length''))
      | Inr len \<Rightarrow> Parse (index h ''Range'') ''bytes='' len)"

subsection \<open>Notions used to state the properties\<close>

text \<open>The positions covered by a sequence of ranges: \<open>p\<close> lies in one of them.\<close>

definition covers :: "Range list \<Rightarrow> int \<Rightarrow> bool" where
  "covers rs p = list_ex (\<lambda>r. Start r \<le> p \<and> p \<le> Stop r) rs"

text \<open>
  All the comma-separated tokens \<open>Parse\<close> visits, in the order it visits them: each
  entry without its prefix, split on \<open>","\<close>.
\<close>

definition tokens :: "string list \<Rightarrow> string \<Rightarrow> string list" where
  "tokens ranges prefix = concat (map (\<lambda>r. Split (TrimPrefix r prefix) CHR '','') ranges)"

text \<open>
  The order \<open>sort.Sort\<close> establishes: \<open>a\<close> may stand before \<open>b\<close> when \<open>b\<close> is not
  \<open>Less\<close> than \<open>a\<close>.
\<close>

definition lexle :: "Range \<Rightarrow> Range \<Rightarrow> bool" where
  "lexle a b = (\<not> Less b a)"

text \<open>
  What the loop of \<open>mergeRanges\<close> keeps true of the first range \<open>h\<close> it emits when it
  starts with \<open>cur\<close>: it starts where \<open>cur\<close> starts, and if it is not \<open>cur\<close> itself a
  merge took place, which needs \<open>cur\<close> to start no later than it stops and leaves a stop
  not before the start.
\<close>

definition headInv :: "Range \<Rightarrow> Range \<Rightarrow> bool" where
  "headInv cur h = (Start h = Start cur \<and>
     (h = cur \<or> (Start cur \<le> Stop cur \<and> Start cur \<le> Stop h)))"

text \<open>
  The conditions under which one token fails, in the words of the specification.  A token
  has the right shape when it splits on \<open>"-"\<close> into exactly two parts.  Its numeric
  fields are the parts \<open>Parse\<close> hands to \<open>strconv.Atoi\<close>, in the order it does: the
  second part for the suffix form (empty first part), the first part for the open-ended
  form (empty second part), both parts for the closed form.
\<close>

definition two_parts :: "string \<Rightarrow> bool" where
  "two_parts r = (length (Split r CHR ''-'') = 2)"

definition fields :: "string \<Rightarrow> string list" where
  "fields r =
     (case Split r CHR ''-'' of
        [p0, p1] \<Rightarrow> if p0 = [] then [p1] else if p1 = [] then [p0] else [p0, p1]
      | _ \<Rightarrow> [])"

definition parses :: "string \<Rightarrow> bool" where
  "parses p = (case Atoi p of Inl _ \<Rightarrow> False | Inr _ \<Rightarrow> True)"

text \<open>The first numeric field that \<open>strconv.Atoi\<close> rejects, if there is one.\<close>

definition first_bad_field :: "string \<Rightarrow> string option" where
  "first_bad_field r = find (\<lambda>p. \<not> parses p) (fields r)"

text \<open>The bounds of a token: the values of its numeric fields that parse.\<close>

definition bounds :: "string \<Rightarrow> int list" where
  "bounds r = concat (map (\<lambda>p. case Atoi p of Inl _ \<Rightarrow> [] | Inr v \<Rightarrow> [v]) (fields r))"

definition bound_outside :: "string \<Rightarrow> int \<Rightarrow> bool" where
  "bound_outside r maxLen = list_ex (\<lambda>v. v < 0 \<or> v > maxLen) (bounds r)"

definition bound_above :: "string \<Rightarrow> int \<Rightarrow> bool" where
  "bound_above r maxLen = list_ex (\<lambda>v. v > maxLen) (bounds r)"

text \<open>A closed range (two bounds) whose start lies after its stop.\<close>

definition start_after_stop :: "string \<Rightarrow> bool" where
  "start_after_stop r = (case bounds r of [x, y] \<Rightarrow> x > y | _ \<Rightarrow> False)"

text \<open>A token the loop body of \<open>Parse\<close> turns into a range.\<close>

definition accepted :: "string \<Rightarrow> int \<Rightarrow> bool" where
  "accepted r maxLen = (case parseRange r maxLen of Inl _ \<Rightarrow> False | Inr _ \<Rightarrow> True)"

section \<open>Evaluating the functions on concrete inputs\<close>

lemmas eval_defs = Parse_def parseRange_def Atoi_def ParseInt_def ParseUint_def is_digit_def
  digit_val_def intSize_def TrimPrefix_def mergeRanges_def Less_def overlaps_def merge_def
  ParseHeader_def Get_def index_def covers_def

section \<open>The sort order\<close>

lemma lexle_iff: "lexle a b \<longleftrightarrow> Start a < Start b \<or> (Start a = Start b \<and> Stop a \<le> Stop b)"
  by (auto simp: lexle_def Less_def)

lemma lexle_refl: "lexle a a"
  by (simp add: lexle_iff)

lemma lexle_trans: "lexle a b \<Longrightarrow> lexle b c \<Longrightarrow> lexle a c"
  by (auto simp: lexle_iff)

lemma lexle_total: "lexle a b \<or> lexle b a"
  by (auto simp: lexle_iff)

lemma lexle_antisym: "lexle a b \<Longrightarrow> lexle b a \<Longrightarrow> a = (b :: Range)"
  by (auto simp: lexle_iff)

lemma transp_lexle: "transp lexle"
  by (rule transpI) (rule lexle_trans)

lemma mset_insertRange: "mset (insertRange x xs) = add_mset x (mset xs)"
  by (induction xs) auto

lemma mset_sortRanges: "mset (sortRanges xs) = mset xs"
  by (induction xs) (auto simp: mset_insertRange)

lemma set_insertRange: "set (insertRange x xs) = insert x (set xs)"
  by (induction xs) auto

lemma set_sortRanges: "set (sortRanges xs) = set xs"
  by (induction xs) (auto simp: set_insertRange)

lemma length_sortRanges: "length (sortRanges xs) = length xs"
  using mset_sortRanges [of xs] by (metis size_mset)

lemma sorted_insertRange:
  "sorted_wrt lexle xs \<Longrightarrow> sorted_wrt lexle (insertRange x xs)"
proof (induction xs)
  case Nil
  then show ?case by simp
next
  case (Cons y ys)
  show ?case
  proof (cases "Less y x")
    case True
    then have "lexle y x" by (auto simp: lexle_iff Less_def split: if_splits)
    with Cons True show ?thesis by (auto simp: set_insertRange)
  next
    case False
    then have xy: "lexle x y" by (simp add: lexle_def)
    have "\<forall>z\<in>set ys. lexle x z"
      using Cons.prems xy by (auto intro: lexle_trans)
    with Cons.prems xy False show ?thesis by simp
  qed
qed

lemma sorted_sortRanges: "sorted_wrt lexle (sortRanges xs)"
  by (induction xs) (auto simp: sorted_insertRange)

lemma insertRange_least:
  "\<forall>y\<in>set ys. lexle x y \<Longrightarrow> insertRange x ys = x # ys"
  by (cases ys) (auto simp: lexle_def)

lemma sortRanges_sorted_id: "sorted_wrt lexle xs \<Longrightarrow> sortRanges xs = xs"
  by (induction xs) (auto simp: insertRange_least)

lemma sorted_lexle_unique:
  "sorted_wrt lexle xs \<Longrightarrow> sorted_wrt lexle ys \<Longrightarrow> mset xs = mset ys \<Longrightarrow> xs = ys"
proof (induction xs arbitrary: ys)
  case Nil
  then show ?case by simp
next
  case (Cons x xs)
  then obtain y ys' where ys: "ys = y # ys'"
    by (cases ys) auto
  have "x \<in> set ys" using Cons.prems(3) by (metis list.set_intros(1) set_mset_mset)
  then have yx: "lexle y x" using Cons.prems(2) ys by (auto simp: lexle_refl)
  have "y \<in> set (x # xs)" using Cons.prems(3) ys by (metis list.set_intros(1) set_mset_mset)
  then have xy: "lexle x y" using Cons.prems(1) by (auto simp: lexle_refl)
  from xy yx have "x = y" by (rule lexle_antisym)
  with Cons ys show ?case by auto
qed

lemma sortRanges_unique:
  "sorted_wrt lexle ys \<Longrightarrow> mset ys = mset xs \<Longrightarrow> sortRanges xs = ys"
  using sorted_lexle_unique [OF sorted_sortRanges, of ys xs] by (simp add: mset_sortRanges)

lemma sortRanges_mset_cong: "mset xs = mset ys \<Longrightarrow> sortRanges xs = sortRanges ys"
  by (rule sortRanges_unique) (simp_all add: sorted_sortRanges mset_sortRanges)

section \<open>The merge loop\<close>

lemma mergeLoop_acc: "mergeLoop result cur bs = result @ mergeLoop [] cur bs"
proof (induction bs arbitrary: result cur)
  case Nil
  show ?case by simp
next
  case (Cons b bs)
  show ?case
  proof (cases "overlaps cur b")
    case True
    then show ?thesis using Cons.IH [of result "merge cur b"] by simp
  next
    case False
    then show ?thesis using Cons.IH [of "result @ [cur]" b] Cons.IH [of "[cur]" b] by simp
  qed
qed

lemma mergeLoop_step:
  "mergeLoop [] cur (b # bs) =
     (if overlaps cur b then mergeLoop [] (merge cur b) bs else cur # mergeLoop [] b bs)"
  using mergeLoop_acc [of "[cur]" b bs] by simp

lemma mergeLoop_nonempty: "mergeLoop [] cur bs \<noteq> []"
  by (induction bs arbitrary: cur) (auto simp: mergeLoop_step simp del: mergeLoop.simps(2))

text \<open>Every emitted range is well formed, whenever the ranges visited are.\<close>

lemma mergeLoop_wellformed:
  "\<forall>r\<in>set (cur # bs). Start r \<le> Stop r \<Longrightarrow>
   \<forall>r\<in>set (mergeLoop [] cur bs). Start r \<le> Stop r"
proof (induction bs arbitrary: cur)
  case Nil
  then show ?case by simp
next
  case (Cons b bs)
  show ?case
  proof (cases "overlaps cur b")
    case True
    then have "Start (merge cur b) \<le> Stop (merge cur b)"
      by (simp add: overlaps_def merge_def)
    with Cons.prems have "\<forall>r\<in>set (merge cur b # bs). Start r \<le> Stop r" by simp
    from Cons.IH [OF this] True show ?thesis by (simp add: mergeLoop_step del: mergeLoop.simps)
  next
    case False
    from Cons.prems have "\<forall>r\<in>set (b # bs). Start r \<le> Stop r" by simp
    from Cons.IH [OF this] False Cons.prems show ?thesis
      by (simp add: mergeLoop_step del: mergeLoop.simps)
  qed
qed

lemma mergeLoop_bounds:
  "\<forall>r\<in>set (cur # bs). lo \<le> Start r \<and> Stop r \<le> hi \<Longrightarrow>
   \<forall>r\<in>set (mergeLoop [] cur bs). lo \<le> Start r \<and> Stop r \<le> hi"
proof (induction bs arbitrary: cur)
  case Nil
  then show ?case by simp
next
  case (Cons b bs)
  show ?case
  proof (cases "overlaps cur b")
    case True
    from Cons.prems have "\<forall>r\<in>set (merge cur b # bs). lo \<le> Start r \<and> Stop r \<le> hi"
      by (simp add: merge_def)
    from Cons.IH [OF this] True show ?thesis by (simp add: mergeLoop_step del: mergeLoop.simps)
  next
    case False
    from Cons.prems have "\<forall>r\<in>set (b # bs). lo \<le> Start r \<and> Stop r \<le> hi" by simp
    from Cons.IH [OF this] False Cons.prems show ?thesis
      by (simp add: mergeLoop_step del: mergeLoop.simps)
  qed
qed

lemma sorted_merge_cur:
  assumes "sorted_wrt lexle (cur # b # bs)"
  shows "sorted_wrt lexle (merge cur b # bs)"
proof -
  have "lexle (merge cur b) z" if "z \<in> set bs" for z
  proof -
    have "lexle cur b" "lexle b z" "lexle cur z" using assms that by auto
    then show ?thesis by (auto simp: lexle_iff merge_def)
  qed
  with assms show ?thesis by simp
qed

lemma mergeLoop_sweep:
  "sorted_wrt lexle (cur # bs) \<Longrightarrow>
     headInv cur (hd (mergeLoop [] cur bs)) \<and>
     successively lexle (mergeLoop [] cur bs) \<and>
     successively (\<lambda>a b. \<not> overlaps a b) (mergeLoop [] cur bs)"
proof (induction bs arbitrary: cur)
  case Nil
  show ?case by (simp add: headInv_def)
next
  case (Cons b bs)
  show ?case
  proof (cases "overlaps cur b")
    case True
    let ?out = "mergeLoop [] (merge cur b) bs"
    have out: "mergeLoop [] cur (b # bs) = ?out"
      using True by (simp add: mergeLoop_step del: mergeLoop.simps)
    have IH: "headInv (merge cur b) (hd ?out)" "successively lexle ?out"
      "successively (\<lambda>a b. \<not> overlaps a b) ?out"
      using Cons.IH [OF sorted_merge_cur [OF Cons.prems]] by simp_all
    have "lexle cur b" using Cons.prems by simp
    with True IH(1) have "headInv cur (hd ?out)"
      by (auto simp: headInv_def merge_def overlaps_def lexle_iff)
    with IH out show ?thesis by simp
  next
    case False
    let ?out = "mergeLoop [] b bs"
    have out: "mergeLoop [] cur (b # bs) = cur # ?out"
      using False by (simp add: mergeLoop_step del: mergeLoop.simps)
    have srt: "sorted_wrt lexle (b # bs)" using Cons.prems by simp
    have IH: "headInv b (hd ?out)" "successively lexle ?out"
      "successively (\<lambda>a b. \<not> overlaps a b) ?out"
      using Cons.IH [OF srt] by simp_all
    have cb: "lexle cur b" using Cons.prems by simp
    have ne: "?out \<noteq> []" by (rule mergeLoop_nonempty)
    have 1: "lexle cur (hd ?out)"
      using cb False IH(1) by (auto simp: headInv_def overlaps_def lexle_iff)
    have 2: "\<not> overlaps cur (hd ?out)"
      using cb False IH(1) by (auto simp: headInv_def overlaps_def lexle_iff)
    show ?thesis
      unfolding out using IH 1 2 ne by (simp add: successively_Cons headInv_def)
  qed
qed

lemma mergeLoop_fixed:
  "successively (\<lambda>a b. \<not> overlaps a b) (cur # bs) \<Longrightarrow> mergeLoop [] cur bs = cur # bs"
  by (induction bs arbitrary: cur) (auto simp: mergeLoop_step simp del: mergeLoop.simps(2))

section \<open>mergeRanges\<close>

lemma successively_gap:
  "successively lexle xs \<Longrightarrow> successively (\<lambda>a b. \<not> overlaps a b) xs \<Longrightarrow>
   \<forall>r\<in>set xs. Start r \<le> Stop r \<Longrightarrow> successively (\<lambda>a b. Stop a < Start b) xs"
proof (induction xs)
  case Nil
  show ?case by simp
next
  case (Cons x xs)
  show ?case
  proof (cases xs)
    case Nil
    then show ?thesis by simp
  next
    case (Cons y ys)
    with Cons.prems have "lexle x y" "\<not> overlaps x y" "Start y \<le> Stop y" by simp_all
    then have "Stop x < Start y" by (auto simp: lexle_iff overlaps_def)
    moreover have "successively (\<lambda>a b. Stop a < Start b) xs"
      using Cons.IH Cons.prems by (auto simp: successively_Cons)
    ultimately show ?thesis using Cons by simp
  qed
qed

lemma mergeRanges_sorted_case:
  assumes "\<not> length br < 2"
  obtains cur rest where "sortRanges br = cur # rest" "mergeRanges br = mergeLoop [] cur rest"
    "sorted_wrt lexle (cur # rest)" "set (cur # rest) = set br"
proof -
  have "length (sortRanges br) = length br" by (rule length_sortRanges)
  with assms obtain cur rest where s: "sortRanges br = cur # rest"
    by (cases "sortRanges br") auto
  have "mergeRanges br = mergeLoop [] cur rest"
    using assms s by (simp add: mergeRanges_def)
  moreover have "sorted_wrt lexle (cur # rest)"
    using sorted_sortRanges [of br] s by simp
  moreover have "set (cur # rest) = set br"
    using set_sortRanges [of br] s by simp
  ultimately show thesis using s that by blast
qed

lemma mergeRanges_wellformed:
  assumes "\<forall>r\<in>set br. Start r \<le> Stop r"
  shows "\<forall>r\<in>set (mergeRanges br). Start r \<le> Stop r"
proof (cases "length br < 2")
  case True
  with assms show ?thesis by (simp add: mergeRanges_def)
next
  case False
  then obtain cur rest where s: "mergeRanges br = mergeLoop [] cur rest"
    "set (cur # rest) = set br"
    by (rule mergeRanges_sorted_case)
  from assms s(2) have "\<forall>r\<in>set (cur # rest). Start r \<le> Stop r" by blast
  from mergeLoop_wellformed [OF this] s(1) show ?thesis by simp
qed

lemma mergeRanges_bounds:
  assumes "\<forall>r\<in>set br. lo \<le> Start r \<and> Stop r \<le> hi"
  shows "\<forall>r\<in>set (mergeRanges br). lo \<le> Start r \<and> Stop r \<le> hi"
proof (cases "length br < 2")
  case True
  with assms show ?thesis by (simp add: mergeRanges_def)
next
  case False
  then obtain cur rest where s: "mergeRanges br = mergeLoop [] cur rest"
    "set (cur # rest) = set br"
    by (rule mergeRanges_sorted_case)
  from assms s(2) have "\<forall>r\<in>set (cur # rest). lo \<le> Start r \<and> Stop r \<le> hi" by blast
  from mergeLoop_bounds [OF this] s(1) show ?thesis by simp
qed

lemma mergeRanges_sweep:
  "successively lexle (mergeRanges br) \<and> successively (\<lambda>a b. \<not> overlaps a b) (mergeRanges br)"
proof (cases "length br < 2")
  case True
  then have "br = [] \<or> (\<exists>x. br = [x])"
    by (cases br) (auto simp: length_Suc_conv)
  with True show ?thesis by (auto simp: mergeRanges_def)
next
  case False
  then obtain cur rest where s: "mergeRanges br = mergeLoop [] cur rest"
    "sorted_wrt lexle (cur # rest)"
    by (rule mergeRanges_sorted_case)
  from mergeLoop_sweep [OF s(2)] s(1) show ?thesis by simp
qed

lemma mergeRanges_gaps:
  assumes "\<forall>r\<in>set br. Start r \<le> Stop r"
  shows "successively (\<lambda>a b. Stop a < Start b) (mergeRanges br)"
  using mergeRanges_sweep [of br] mergeRanges_wellformed [OF assms]
  by (simp add: successively_gap)

lemma mergeRanges_fixed:
  assumes "successively lexle out" "successively (\<lambda>a b. \<not> overlaps a b) out"
  shows "mergeRanges out = out"
proof (cases "length out < 2")
  case True
  then show ?thesis by (simp add: mergeRanges_def)
next
  case False
  have srt: "sorted_wrt lexle out"
    using assms(1) transp_lexle by (simp add: successively_conv_sorted_wrt)
  then have id: "sortRanges out = out" by (rule sortRanges_sorted_id)
  from False obtain cur rest where out: "out = cur # rest" by (cases out) auto
  with assms(2) have "mergeLoop [] cur rest = cur # rest" by (simp add: mergeLoop_fixed)
  with False id out show ?thesis by (simp add: mergeRanges_def)
qed

lemma mset_short_eq:
  assumes "mset ys = mset xs" "length xs < 2"
  shows "ys = xs"
proof -
  have len: "length ys = length xs" using assms(1) by (metis size_mset)
  show ?thesis
  proof (cases xs)
    case Nil
    with assms show ?thesis by simp
  next
    case (Cons x xs')
    with assms(2) have xs: "xs = [x]" by simp
    with len obtain y where ys: "ys = [y]" by (cases ys) auto
    with xs assms(1) show ?thesis by simp
  qed
qed

section \<open>Splitting and integer parsing\<close>

subsection \<open>Split\<close>

lemma Split_nonempty: "Split s sep \<noteq> []"
  by (induction s) (auto split: list.splits)

lemma Split_no_sep: "p \<in> set (Split s sep) \<Longrightarrow> sep \<notin> set p"
proof (induction s arbitrary: p)
  case Nil
  then show ?case by simp
next
  case (Cons c cs)
  then show ?case
    by (cases "Split cs sep") (auto simp: Split_nonempty split: if_splits)
qed

lemma Split_id: "sep \<notin> set s \<Longrightarrow> Split s sep = [s]"
  by (induction s) auto

lemma Split_join: "Split s sep = p # ps \<Longrightarrow> ps \<noteq> [] \<Longrightarrow> \<exists>s'. s = p @ sep # s' \<and> Split s' sep = ps"
proof (induction s arbitrary: p)
  case Nil
  then show ?case by simp
next
  case (Cons c cs)
  show ?case
  proof (cases "c = sep")
    case True
    with Cons.prems show ?thesis by auto
  next
    case False
    with Cons.prems obtain q where q: "Split cs sep = q # ps" "p = c # q"
      by (cases "Split cs sep") auto
    from Cons.IH [OF q(1) Cons.prems(2)] q(2) show ?thesis by auto
  qed
qed

lemma Split_single: "Split s sep = [p] \<Longrightarrow> s = p"
proof (induction s arbitrary: p)
  case Nil
  then show ?case by simp
next
  case (Cons c cs)
  then show ?case
    by (cases "Split cs sep") (auto simp: Split_nonempty split: if_splits)
qed

lemma Split_two: "Split s sep = [a, b] \<Longrightarrow> s = a @ sep # b"
  using Split_join [of s sep a "[b]"] Split_single [of _ sep b] by auto

lemma Split_sep_first: "sep \<notin> set p \<Longrightarrow> Split (sep # p) sep = [[], p]"
  by (simp add: Split_id)

subsection \<open>Atoi\<close>

lemma parseDigits_digits: "parseDigits n s = Inr v \<Longrightarrow> \<forall>c\<in>set s. is_digit c"
  by (induction n s rule: parseDigits.induct) (auto simp: Let_def split: if_splits)

lemma Atoi_Inl: "Atoi s = Inl e \<Longrightarrow> \<exists>k. e = NumError s k"
  by (auto simp: Atoi_def split: sum.splits)

lemma ParseUint_digits: "ParseUint s = Inr v \<Longrightarrow> \<forall>c\<in>set s. is_digit c"
  unfolding ParseUint_def by (cases "s = []") (simp_all add: parseDigits_digits)

lemma ParseInt_signed:
  assumes "ParseInt (c # cs) = Inr v" "c = CHR ''+'' \<or> c = CHR ''-''"
  shows "\<exists>un. ParseUint cs = Inr un"
proof (cases "ParseUint cs")
  case (Inl e)
  with assms show ?thesis by (simp add: ParseInt_def)
next
  case (Inr un)
  then show ?thesis by simp
qed

lemma ParseInt_unsigned:
  assumes "ParseInt (c # cs) = Inr v" "\<not> (c = CHR ''+'' \<or> c = CHR ''-'')"
  shows "\<exists>un. ParseUint (c # cs) = Inr un"
proof (cases "ParseUint (c # cs)")
  case (Inl e)
  with assms show ?thesis by (simp add: ParseInt_def)
next
  case (Inr un)
  then show ?thesis by simp
qed

lemma Atoi_ParseInt: "Atoi s = Inr v \<Longrightarrow> ParseInt s = Inr v"
  by (cases "ParseInt s") (simp_all add: Atoi_def)

lemma Atoi_chars:
  assumes "Atoi s = Inr v"
  shows "\<forall>c\<in>set s. is_digit c \<or> c = CHR ''+'' \<or> c = CHR ''-''"
proof -
  have p: "ParseInt s = Inr v" using assms by (rule Atoi_ParseInt)
  then obtain c cs where s: "s = c # cs"
    by (cases s) (simp_all add: ParseInt_def)
  show ?thesis
  proof (cases "c = CHR ''+'' \<or> c = CHR ''-''")
    case True
    from ParseInt_signed [OF p [unfolded s] True] obtain un where "ParseUint cs = Inr un" ..
    then have "\<forall>d\<in>set cs. is_digit d" by (rule ParseUint_digits)
    with True s show ?thesis by auto
  next
    case False
    from ParseInt_unsigned [OF p [unfolded s] False] obtain un
      where "ParseUint (c # cs) = Inr un" ..
    then have "\<forall>d\<in>set (c # cs). is_digit d" by (rule ParseUint_digits)
    with s show ?thesis by auto
  qed
qed

lemma not_digit_comma: "\<not> is_digit CHR '',''"
  by (simp add: is_digit_def)

lemma Atoi_no_comma:
  assumes "Atoi s = Inr v"
  shows "CHR '','' \<notin> set s"
proof
  assume "CHR '','' \<in> set s"
  with Atoi_chars [OF assms]
  have "is_digit CHR '','' \<or> CHR '','' = CHR ''+'' \<or> CHR '','' = CHR ''-''" by blast
  then show False by (simp add: not_digit_comma)
qed

lemma Atoi_nonneg:
  assumes "CHR ''-'' \<notin> set s" "Atoi s = Inr v"
  shows "0 \<le> v"
proof -
  from assms(2) obtain c cs where s: "s = c # cs"
    by (cases s) (auto simp: Atoi_def ParseInt_def)
  with assms(1) have "c \<noteq> CHR ''-''" by auto
  with assms(2) s show ?thesis
    by (auto simp: Atoi_def ParseInt_def Let_def split: sum.splits if_splits)
qed

section \<open>Tokens and the loops of Parse\<close>

subsection \<open>parseRange\<close>

lemma parseRange_wellformed:
  assumes "parseRange r maxLen = Inr rg"
  shows "0 \<le> Start rg \<and> Start rg \<le> Stop rg \<and> Stop rg \<le> maxLen"
proof -
  from assms obtain p0 p1 where sp: "Split r CHR ''-'' = [p0, p1]"
    by (auto simp: parseRange_def split: list.splits)
  show ?thesis
  proof (cases "p0 = []")
    case True
    with assms sp show ?thesis
      by (auto simp: parseRange_def split: sum.splits if_splits)
  next
    case False
    note p0 = this
    show ?thesis
    proof (cases "p1 = []")
      case True
      with assms sp p0 show ?thesis
        by (auto simp: parseRange_def split: sum.splits if_splits)
    next
      case False
      with assms sp p0 show ?thesis
        by (auto simp: parseRange_def split: sum.splits if_splits)
    qed
  qed
qed

lemma parseRange_suffix:
  assumes "Split r CHR ''-'' = [[], p1]" "Atoi p1 = Inr y" "0 \<le> y" "y \<le> maxLen"
  shows "parseRange r maxLen = Inr \<lparr>Start = maxLen - y, Stop = maxLen\<rparr>"
  using assms by (simp add: parseRange_def)

subsection \<open>The loops of Parse\<close>

lemma parseTokens_append:
  "parseTokens (ts @ us) maxLen result =
     (case parseTokens ts maxLen result of
        Inl err \<Rightarrow> Inl err
      | Inr result' \<Rightarrow> parseTokens us maxLen result')"
  by (induction ts arbitrary: result) (auto split: sum.splits)

lemma parseEntries_tokens:
  "parseEntries ranges prefix maxLen result = parseTokens (tokens ranges prefix) maxLen result"
  by (induction ranges arbitrary: result)
     (auto simp: tokens_def parseTokens_append split: sum.splits)

lemma parseTokens_Inr:
  "parseTokens ts maxLen result = Inr out \<Longrightarrow>
   \<exists>rs. out = result @ rs \<and> length rs = length ts \<and>
        (\<forall>rg\<in>set rs. \<exists>t\<in>set ts. parseRange t maxLen = Inr rg)"
proof (induction ts arbitrary: result)
  case Nil
  then show ?case by simp
next
  case (Cons t ts)
  from Cons.prems obtain rg where rg: "parseRange t maxLen = Inr rg"
    and rest: "parseTokens ts maxLen (result @ [rg]) = Inr out"
    by (auto split: sum.splits)
  from Cons.IH [OF rest] obtain rs where rs: "out = (result @ [rg]) @ rs"
    "length rs = length ts" "\<forall>x\<in>set rs. \<exists>u\<in>set ts. parseRange u maxLen = Inr x"
    by blast
  show ?case
  proof (intro exI conjI)
    show "out = result @ (rg # rs)" using rs(1) by simp
    show "length (rg # rs) = length (t # ts)" using rs(2) by simp
    show "\<forall>x\<in>set (rg # rs). \<exists>u\<in>set (t # ts). parseRange u maxLen = Inr x"
      using rs(3) rg by auto
  qed
qed

lemma parseTokens_Inl_iff:
  "parseTokens ts maxLen result = Inl e \<longleftrightarrow>
   (\<exists>pre r post. ts = pre @ r # post \<and> list_all (\<lambda>u. accepted u maxLen) pre \<and>
      parseRange r maxLen = Inl e)"
proof (induction ts arbitrary: result)
  case Nil
  show ?case by simp
next
  case (Cons t ts)
  show ?case
  proof (cases "parseRange t maxLen")
    case (Inl e')
    have "(\<exists>pre r post. t # ts = pre @ r # post \<and> list_all (\<lambda>u. accepted u maxLen) pre \<and>
      parseRange r maxLen = Inl e) \<longleftrightarrow> e' = e"
    proof
      assume "\<exists>pre r post. t # ts = pre @ r # post \<and> list_all (\<lambda>u. accepted u maxLen) pre \<and>
        parseRange r maxLen = Inl e"
      then obtain pre r post where h: "t # ts = pre @ r # post"
        "list_all (\<lambda>u. accepted u maxLen) pre" "parseRange r maxLen = Inl e" by blast
      show "e' = e"
      proof (cases pre)
        case Nil
        with h Inl show ?thesis by simp
      next
        case (Cons a pre')
        with h have "accepted t maxLen" by simp
        with Inl show ?thesis by (simp add: accepted_def)
      qed
    next
      assume "e' = e"
      with Inl have "t # ts = [] @ t # ts \<and> list_all (\<lambda>u. accepted u maxLen) [] \<and>
        parseRange t maxLen = Inl e" by simp
      then show "\<exists>pre r post. t # ts = pre @ r # post \<and>
        list_all (\<lambda>u. accepted u maxLen) pre \<and> parseRange r maxLen = Inl e" by blast
    qed
    with Inl show ?thesis by auto
  next
    case (Inr rg)
    have acc: "accepted t maxLen" using Inr by (simp add: accepted_def)
    have "(\<exists>pre r post. t # ts = pre @ r # post \<and> list_all (\<lambda>u. accepted u maxLen) pre \<and>
      parseRange r maxLen = Inl e) \<longleftrightarrow>
      (\<exists>pre r post. ts = pre @ r # post \<and> list_all (\<lambda>u. accepted u maxLen) pre \<and>
      parseRange r maxLen = Inl e)"
    proof
      assume "\<exists>pre r post. t # ts = pre @ r # post \<and> list_all (\<lambda>u. accepted u maxLen) pre \<and>
        parseRange r maxLen = Inl e"
      then obtain pre r post where h: "t # ts = pre @ r # post"
        "list_all (\<lambda>u. accepted u maxLen) pre" "parseRange r maxLen = Inl e" by blast
      show "\<exists>pre r post. ts = pre @ r # post \<and> list_all (\<lambda>u. accepted u maxLen) pre \<and>
        parseRange r maxLen = Inl e"
      proof (cases pre)
        case Nil
        with h Inr show ?thesis by simp
      next
        case (Cons a pre')
        with h have "ts = pre' @ r # post \<and> list_all (\<lambda>u. accepted u maxLen) pre' \<and>
          parseRange r maxLen = Inl e" by simp
        then show ?thesis by blast
      qed
    next
      assume "\<exists>pre r post. ts = pre @ r # post \<and> list_all (\<lambda>u. accepted u maxLen) pre \<and>
        parseRange r maxLen = Inl e"
      then obtain pre r post where h: "ts = pre @ r # post"
        "list_all (\<lambda>u. accepted u maxLen) pre" "parseRange r maxLen = Inl e" by blast
      then have "t # ts = (t # pre) @ r # post \<and> list_all (\<lambda>u. accepted u maxLen) (t # pre) \<and>
        parseRange r maxLen = Inl e" using acc by simp
      then show "\<exists>pre r post. t # ts = pre @ r # post \<and>
        list_all (\<lambda>u. accepted u maxLen) pre \<and> parseRange r maxLen = Inl e" by blast
    qed
    with Inr Cons.IH [of "result @ [rg]"] show ?thesis by simp
  qed
qed

lemma Parse_Inl_iff:
  "Parse ranges prefix maxLen = Inl e \<longleftrightarrow>
     parseTokens (tokens ranges prefix) maxLen [] = Inl e"
  by (simp add: Parse_def parseEntries_tokens split: sum.splits)

lemma Parse_Inr:
  assumes "Parse ranges prefix maxLen = Inr out"
  obtains result where "out = mergeRanges result"
    "\<forall>rg\<in>set result. \<exists>t\<in>set (tokens ranges prefix). parseRange t maxLen = Inr rg"
proof -
  from assms obtain result where r: "parseTokens (tokens ranges prefix) maxLen [] = Inr result"
    "out = mergeRanges result"
    by (auto simp: Parse_def parseEntries_tokens split: sum.splits)
  from parseTokens_Inr [OF r(1)] have
    "\<forall>rg\<in>set result. \<exists>t\<in>set (tokens ranges prefix). parseRange t maxLen = Inr rg" by auto
  with r(2) that show thesis by blast
qed

lemma Parse_wellformed_input:
  assumes "Parse ranges prefix maxLen = Inr out"
  obtains result where "out = mergeRanges result"
    "\<forall>rg\<in>set result. 0 \<le> Start rg \<and> Start rg \<le> Stop rg \<and> Stop rg \<le> maxLen"
proof -
  from assms obtain result where r: "out = mergeRanges result"
    "\<forall>rg\<in>set result. \<exists>t\<in>set (tokens ranges prefix). parseRange t maxLen = Inr rg"
    by (rule Parse_Inr)
  have "\<forall>rg\<in>set result. 0 \<le> Start rg \<and> Start rg \<le> Stop rg \<and> Stop rg \<le> maxLen"
    using r(2) parseRange_wellformed by blast
  with r(1) that show thesis by blast
qed

subsection \<open>The kinds of failure of one token\<close>

lemma parseRange_shape:
  "\<not> two_parts r \<Longrightarrow> parseRange r maxLen = Inl InvalidRange"
  by (auto simp: two_parts_def parseRange_def split: list.splits)

lemma two_parts_iff: "two_parts r \<longleftrightarrow> (\<exists>p0 p1. Split r CHR ''-'' = [p0, p1])"
proof
  assume "two_parts r"
  then have "length (Split r CHR ''-'') = Suc (Suc 0)" by (simp add: two_parts_def)
  then show "\<exists>p0 p1. Split r CHR ''-'' = [p0, p1]" by (auto simp: length_Suc_conv)
next
  assume "\<exists>p0 p1. Split r CHR ''-'' = [p0, p1]"
  then show "two_parts r" by (auto simp: two_parts_def)
qed

lemma parses_iff: "parses p \<longleftrightarrow> (\<exists>v. Atoi p = Inr v)"
  by (cases "Atoi p") (simp_all add: parses_def)

lemma not_parses_iff: "\<not> parses p \<longleftrightarrow> (\<exists>k. Atoi p = Inl (NumError p k))"
proof (cases "Atoi p")
  case (Inl e)
  with Atoi_Inl [OF Inl] show ?thesis by (auto simp: parses_def)
next
  case (Inr v)
  then show ?thesis by (simp add: parses_def)
qed

text \<open>One numeric field: the suffix form and the open-ended form.\<close>

lemma parseRange_one_field:
  assumes "Split r CHR ''-'' = [p0, p1]" "p0 = [] \<or> p1 = []"
  defines "p \<equiv> (if p0 = [] then p1 else p0)"
  shows "fields r = [p]"
    and "Atoi p = Inl e \<Longrightarrow> parseRange r maxLen = Inl e"
    and "Atoi p = Inr v \<Longrightarrow> bounds r = [v]"
    and "Atoi p = Inr v \<Longrightarrow> v < 0 \<or> v > maxLen \<Longrightarrow> parseRange r maxLen = Inl InvalidRange"
    and "Atoi p = Inr v \<Longrightarrow> \<not> (v < 0 \<or> v > maxLen) \<Longrightarrow> \<exists>rg. parseRange r maxLen = Inr rg"
  using assms by (auto simp: fields_def bounds_def parseRange_def)

text \<open>Two numeric fields: the closed form.\<close>

lemma parseRange_two_fields:
  assumes "Split r CHR ''-'' = [p0, p1]" "p0 \<noteq> []" "p1 \<noteq> []"
  shows "fields r = [p0, p1]"
    and "Atoi p0 = Inl e \<Longrightarrow> parseRange r maxLen = Inl e"
    and "Atoi p0 = Inr x \<Longrightarrow> Atoi p1 = Inl e \<Longrightarrow> parseRange r maxLen = Inl e"
    and "Atoi p0 = Inr x \<Longrightarrow> Atoi p1 = Inr y \<Longrightarrow> bounds r = [x, y]"
    and "Atoi p0 = Inr x \<Longrightarrow> Atoi p1 = Inr y \<Longrightarrow>
         x < 0 \<or> y < 0 \<or> x > maxLen \<or> y > maxLen \<or> x > y \<Longrightarrow>
         parseRange r maxLen = Inl InvalidRange"
    and "Atoi p0 = Inr x \<Longrightarrow> Atoi p1 = Inr y \<Longrightarrow>
         \<not> (x < 0 \<or> y < 0 \<or> x > maxLen \<or> y > maxLen \<or> x > y) \<Longrightarrow>
         \<exists>rg. parseRange r maxLen = Inr rg"
  using assms by (auto simp: fields_def bounds_def parseRange_def)

text \<open>Every token falls in exactly one of four classes.\<close>

lemma token_cases:
  obtains
    (shape) "\<not> two_parts r" "parseRange r maxLen = Inl InvalidRange"
  | (bad_field) s k where "two_parts r" "find (\<lambda>p. \<not> parses p) (fields r) = Some s"
      "Atoi s = Inl (NumError s k)" "parseRange r maxLen = Inl (NumError s k)"
  | (invalid) "two_parts r" "find (\<lambda>p. \<not> parses p) (fields r) = None"
      "bound_outside r maxLen \<or> start_after_stop r" "parseRange r maxLen = Inl InvalidRange"
  | (valid) rg where "two_parts r" "find (\<lambda>p. \<not> parses p) (fields r) = None"
      "\<not> (bound_outside r maxLen \<or> start_after_stop r)" "parseRange r maxLen = Inr rg"
proof (cases "two_parts r")
  case False
  then show thesis using shape parseRange_shape by blast
next
  case True
  then obtain p0 p1 where sp: "Split r CHR ''-'' = [p0, p1]"
    using two_parts_iff by blast
  show thesis
  proof (cases "p0 = [] \<or> p1 = []")
    case one: True
    define p where "p = (if p0 = [] then p1 else p0)"
    note f = parseRange_one_field [OF sp one, folded p_def]
    show thesis
    proof (cases "Atoi p")
      case (Inl e)
      then obtain k where e: "e = NumError p k" using Atoi_Inl by blast
      have "find (\<lambda>p. \<not> parses p) (fields r) = Some p"
        using Inl f(1) by (simp add: parses_def)
      then show thesis using bad_field [of p k] True Inl e f(2) by blast
    next
      case (Inr v)
      have nf: "find (\<lambda>p. \<not> parses p) (fields r) = None"
        using Inr f(1) by (simp add: parses_def)
      have b: "bounds r = [v]" using Inr f(3) by blast
      show thesis
      proof (cases "v < 0 \<or> v > maxLen")
        case True
        then have "bound_outside r maxLen" using b by (simp add: bound_outside_def)
        then show thesis using invalid \<open>two_parts r\<close> nf f(4) [OF Inr True] by blast
      next
        case False
        then have "\<not> (bound_outside r maxLen \<or> start_after_stop r)"
          using b by (simp add: bound_outside_def start_after_stop_def)
        then show thesis using valid \<open>two_parts r\<close> nf f(5) [OF Inr False] by blast
      qed
    qed
  next
    case two: False
    then have ne: "p0 \<noteq> []" "p1 \<noteq> []" by simp_all
    note f = parseRange_two_fields [OF sp ne]
    show thesis
    proof (cases "Atoi p0")
      case (Inl e)
      then obtain k where e: "e = NumError p0 k" using Atoi_Inl by blast
      have "find (\<lambda>p. \<not> parses p) (fields r) = Some p0"
        using Inl f(1) by (simp add: parses_def)
      then show thesis using bad_field [of p0 k] True Inl e f(2) by blast
    next
      case x: (Inr x)
      show thesis
      proof (cases "Atoi p1")
        case (Inl e)
        then obtain k where e: "e = NumError p1 k" using Atoi_Inl by blast
        have "find (\<lambda>p. \<not> parses p) (fields r) = Some p1"
          using Inl x f(1) by (simp add: parses_def)
        then show thesis using bad_field [of p1 k] True Inl e f(3) [OF x] by blast
      next
        case y: (Inr y)
        have nf: "find (\<lambda>p. \<not> parses p) (fields r) = None"
          using x y f(1) by (simp add: parses_def)
        have b: "bounds r = [x, y]" using f(4) [OF x y] .
        show thesis
        proof (cases "x < 0 \<or> y < 0 \<or> x > maxLen \<or> y > maxLen \<or> x > y")
          case True
          then have "bound_outside r maxLen \<or> start_after_stop r"
            using b by (auto simp: bound_outside_def start_after_stop_def)
          then show thesis using invalid \<open>two_parts r\<close> nf f(5) [OF x y True] by blast
        next
          case False
          then have "\<not> (bound_outside r maxLen \<or> start_after_stop r)"
            using b by (auto simp: bound_outside_def start_after_stop_def)
          then show thesis using valid \<open>two_parts r\<close> nf f(6) [OF x y False] by blast
        qed
      qed
    qed
  qed
qed

lemma parseRange_InvalidRange_iff:
  "parseRange r maxLen = Inl InvalidRange \<longleftrightarrow>
     \<not> two_parts r \<or>
     (find (\<lambda>p. \<not> parses p) (fields r) = None \<and>
      (bound_outside r maxLen \<or> start_after_stop r))"
  by (cases r maxLen rule: token_cases) auto

lemma parseRange_NumError_iff:
  "parseRange r maxLen = Inl (NumError s k) \<longleftrightarrow>
     two_parts r \<and> find (\<lambda>p. \<not> parses p) (fields r) = Some s \<and>
     Atoi s = Inl (NumError s k)"
  by (cases r maxLen rule: token_cases) auto

lemma parseRange_no_content_length_error:
  "parseRange r maxLen \<noteq> Inl (InvalidContentLength vs)"
  by (cases r maxLen rule: token_cases) auto

lemma Parse_negative_maxLen:
  assumes "maxLen < 0" "ranges \<noteq> []"
  shows "\<exists>e. Parse ranges prefix maxLen = Inl e"
proof -
  from assms(2) obtain r rs where "ranges = r # rs" by (cases ranges) auto
  moreover obtain t ts where "Split (TrimPrefix r prefix) CHR '','' = t # ts"
    using Split_nonempty by (cases "Split (TrimPrefix r prefix) CHR '',''") auto
  ultimately obtain us where tk: "tokens ranges prefix = t # us"
    by (simp add: tokens_def)
  have "\<exists>e. parseRange t maxLen = Inl e"
  proof (cases "parseRange t maxLen")
    case (Inl e)
    then show ?thesis by blast
  next
    case (Inr rg)
    from parseRange_wellformed [OF Inr] assms(1) show ?thesis by simp
  qed
  then obtain e where "parseRange t maxLen = Inl e" ..
  then have "parseTokens (tokens ranges prefix) maxLen [] = Inl e"
    using tk by simp
  then show ?thesis using Parse_Inl_iff by blast
qed

lemma Parse_no_content_length_error:
  "Parse ranges prefix maxLen \<noteq> Inl (InvalidContentLength vs)"
  using parseRange_no_content_length_error
  by (auto simp: Parse_Inl_iff parseTokens_Inl_iff)

lemma gap_sorted:
  assumes "successively (\<lambda>a b. Stop a < Start b) xs" "\<forall>r\<in>set xs. Start r \<le> Stop r"
  shows "sorted_wrt (\<lambda>a b. Stop a < Start b) xs"
proof -
  have "successively (\<lambda>a b. Stop a < Start b) xs \<longleftrightarrow> sorted_wrt (\<lambda>a b. Stop a < Start b) xs"
  proof (rule successively_iff_sorted_wrt_strong)
    fix x y z
    assume "y \<in> set xs" "Stop x < Start y" "Stop y < Start z"
    moreover from this assms(2) have "Start y \<le> Stop y" by blast
    ultimately show "Stop x < Start z" by simp
  qed
  with assms(1) show ?thesis by simp
qed

lemma TrimPrefix_append: "TrimPrefix (prefix @ r) prefix = r"
  by (simp add: TrimPrefix_def)

lemma mergeRanges_single: "mergeRanges [rg] = [rg]"
  by (simp add: mergeRanges_def)

lemma Parse_single_token:
  assumes "CHR '','' \<notin> set r" "parseRange r maxLen = Inr rg"
  shows "Parse [prefix @ r] prefix maxLen = Inr [rg]"
  using assms
  by (simp add: Parse_def TrimPrefix_append Split_id mergeRanges_single)

section \<open>The scenario of TestParse\<close>

text \<open>
  C2. \<open>Parse\<close> on \<open>["bytes=0-99", "bytes=50-99,200-300", "bytes=250-,-50"]\<close> with
  prefix \<open>"bytes="\<close> and \<open>maxLen = 350\<close> returns no error and exactly the two ranges
  \<open>(0, 99)\<close> and \<open>(200, 350)\<close>, in this order.
\<close>

theorem Parse_scenario_merged:
  "Parse [''bytes=0-99'', ''bytes=50-99,200-300'', ''bytes=250-,-50''] ''bytes='' 350 =
     Inr [\<lparr>Start = 0, Stop = 99\<rparr>, \<lparr>Start = 200, Stop = 350\<rparr>]"
  by (simp add: eval_defs)

section \<open>Coverage\<close>

text \<open>
  C1 says that \<open>mergeRanges\<close> covers exactly the positions its input covers.  The code
  does not: \<open>Range.merge\<close> takes the stop of the later range (\<open>Stop: c.Stop\<close>), which
  is right only when the later range does not end before the earlier one.  After sorting,
  \<open>(0, 100)\<close> stands before \<open>(10, 20)\<close>, the two overlap, and the merge is
  \<open>(0, 20)\<close>: the positions \<open>21 .. 100\<close> are lost.  Here is \<open>Parse\<close> on
  \<open>["bytes=0-100,10-20"]\<close> with \<open>maxLen = 200\<close>, and position \<open>50\<close>, which the input
  covers and the output does not.
\<close>

theorem mergeRanges_drops_contained_range:
  "Parse [''bytes=0-100,10-20''] ''bytes='' 200 = Inr [\<lparr>Start = 0, Stop = 20\<rparr>] \<and>
   mergeRanges [\<lparr>Start = 0, Stop = 100\<rparr>, \<lparr>Start = 10, Stop = 20\<rparr>] = [\<lparr>Start = 0, Stop = 20\<rparr>] \<and>
   covers [\<lparr>Start = 0, Stop = 100\<rparr>, \<lparr>Start = 10, Stop = 20\<rparr>] 50 \<and>
   \<not> covers (mergeRanges [\<lparr>Start = 0, Stop = 100\<rparr>, \<lparr>Start = 10, Stop = 20\<rparr>]) 50"
  by (simp add: eval_defs)

section \<open>The result of Parse\<close>

text \<open>
  C3. Whenever \<open>Parse\<close> succeeds, every adjacent pair \<open>(a, b)\<close> of the ranges returned
  has \<open>a.Stop < b.Start\<close>, and every range returned has \<open>Start \<le> Stop\<close>.  Hence the
  strict gap holds between any two ranges of the result, not only adjacent ones: the
  result is sorted by start and pairwise disjoint.
\<close>

theorem Parse_sorted_disjoint:
  assumes "Parse ranges prefix maxLen = Inr out"
  shows "successively (\<lambda>a b. Stop a < Start b) out \<and> (\<forall>r\<in>set out. Start r \<le> Stop r) \<and>
         sorted_wrt (\<lambda>a b. Stop a < Start b) out"
proof -
  from assms obtain result where r: "out = mergeRanges result"
    "\<forall>rg\<in>set result. 0 \<le> Start rg \<and> Start rg \<le> Stop rg \<and> Stop rg \<le> maxLen"
    by (rule Parse_wellformed_input)
  then have wf: "\<forall>rg\<in>set result. Start rg \<le> Stop rg" by blast
  have gaps: "successively (\<lambda>a b. Stop a < Start b) out"
    unfolding r(1) using wf by (rule mergeRanges_gaps)
  have wf': "\<forall>r\<in>set out. Start r \<le> Stop r"
    unfolding r(1) using wf by (rule mergeRanges_wellformed)
  from gaps wf' gap_sorted [OF gaps wf'] show ?thesis by blast
qed

text \<open>An input of three tokens in two entries, out of order, two of them overlapping.\<close>

theorem Parse_sorted_disjoint_witness:
  "Parse [''bytes=200-300,0-99'', ''bytes=50-99''] ''bytes='' 350 =
     Inr [\<lparr>Start = 0, Stop = 99\<rparr>, \<lparr>Start = 200, Stop = 300\<rparr>] \<and>
   successively (\<lambda>a b. Stop a < Start b) [\<lparr>Start = 0, Stop = 99\<rparr>, \<lparr>Start = 200, Stop = 300\<rparr>] \<and>
   list_all (\<lambda>r. Start r \<le> Stop r) [\<lparr>Start = 0, Stop = 99\<rparr>, \<lparr>Start = 200, Stop = 300\<rparr>]"
proof -
  have h: "Parse [''bytes=200-300,0-99'', ''bytes=50-99''] ''bytes='' 350 =
     Inr [\<lparr>Start = 0, Stop = 99\<rparr>, \<lparr>Start = 200, Stop = 300\<rparr>]"
    by (simp add: eval_defs)
  from Parse_sorted_disjoint [OF h] h show ?thesis by (simp add: list_all_iff)
qed

text \<open>
  C4. Whenever \<open>Parse\<close> succeeds with content length \<open>maxLen\<close>, every range returned
  satisfies \<open>0 \<le> Start \<le> Stop \<le> maxLen\<close>.
\<close>

theorem Parse_bounds:
  assumes "Parse ranges prefix maxLen = Inr out"
  shows "\<forall>r\<in>set out. 0 \<le> Start r \<and> Start r \<le> Stop r \<and> Stop r \<le> maxLen"
proof -
  from assms obtain result where r: "out = mergeRanges result"
    "\<forall>rg\<in>set result. 0 \<le> Start rg \<and> Start rg \<le> Stop rg \<and> Stop rg \<le> maxLen"
    by (rule Parse_wellformed_input)
  have "\<forall>r\<in>set out. Start r \<le> Stop r"
    unfolding r(1) using r(2) by (intro mergeRanges_wellformed) blast
  moreover have "\<forall>r\<in>set out. 0 \<le> Start r \<and> Stop r \<le> maxLen"
    unfolding r(1) using r(2) by (intro mergeRanges_bounds) blast
  ultimately show ?thesis by blast
qed

text \<open>An input with an open-ended, a suffix and a closed token.\<close>

theorem Parse_bounds_witness:
  "Parse [''bytes=250-,-50'', ''bytes=0-0''] ''bytes='' 350 =
     Inr [\<lparr>Start = 0, Stop = 0\<rparr>, \<lparr>Start = 250, Stop = 350\<rparr>] \<and>
   list_all (\<lambda>r. 0 \<le> Start r \<and> Start r \<le> Stop r \<and> Stop r \<le> 350)
     [\<lparr>Start = 0, Stop = 0\<rparr>, \<lparr>Start = 250, Stop = 350\<rparr>]"
proof -
  have h: "Parse [''bytes=250-,-50'', ''bytes=0-0''] ''bytes='' 350 =
     Inr [\<lparr>Start = 0, Stop = 0\<rparr>, \<lparr>Start = 250, Stop = 350\<rparr>]"
    by (simp add: eval_defs)
  from Parse_bounds [OF h] h show ?thesis by (simp add: list_all_iff)
qed

section \<open>Algebraic properties of mergeRanges\<close>

text \<open>
  C7. \<open>mergeRanges\<close> is idempotent: merging the result of a merge changes nothing.  This
  holds for every sequence of ranges, also for ranges with \<open>Start > Stop\<close>, which \<open>Parse\<close>
  never produces: what the loop emits is sorted and has no two adjacent ranges that
  overlap, so a second run neither reorders nor merges.
\<close>

theorem mergeRanges_idempotent: "mergeRanges (mergeRanges xs) = mergeRanges xs"
  using mergeRanges_sweep [of xs] by (simp add: mergeRanges_fixed)

text \<open>
  C8. \<open>mergeRanges\<close> does not depend on the order of its input: two sequences with the
  same ranges the same number of times (one a permutation of the other) give the same
  result.
\<close>

theorem mergeRanges_permutation_invariant:
  assumes "mset ys = mset xs"
  shows "mergeRanges ys = mergeRanges xs"
proof (cases "length xs < 2")
  case True
  with assms have "ys = xs" by (rule mset_short_eq)
  then show ?thesis by simp
next
  case False
  have "length ys = length xs" using assms by (metis size_mset)
  moreover have "sortRanges ys = sortRanges xs" using assms by (rule sortRanges_mset_cong)
  ultimately show ?thesis using False by (simp add: mergeRanges_def)
qed

text \<open>Three ranges in two orders.\<close>

theorem mergeRanges_permutation_invariant_witness:
  "mset [\<lparr>Start = 20, Stop = 30\<rparr>, \<lparr>Start = 5, Stop = 9\<rparr>, \<lparr>Start = 0, Stop = 6\<rparr>] =
   mset [\<lparr>Start = 0, Stop = 6\<rparr>, \<lparr>Start = 20, Stop = 30\<rparr>, \<lparr>Start = 5, Stop = 9\<rparr>] \<and>
   mergeRanges [\<lparr>Start = 20, Stop = 30\<rparr>, \<lparr>Start = 5, Stop = 9\<rparr>, \<lparr>Start = 0, Stop = 6\<rparr>] =
   mergeRanges [\<lparr>Start = 0, Stop = 6\<rparr>, \<lparr>Start = 20, Stop = 30\<rparr>, \<lparr>Start = 5, Stop = 9\<rparr>] \<and>
   mergeRanges [\<lparr>Start = 0, Stop = 6\<rparr>, \<lparr>Start = 20, Stop = 30\<rparr>, \<lparr>Start = 5, Stop = 9\<rparr>] =
   [\<lparr>Start = 0, Stop = 9\<rparr>, \<lparr>Start = 20, Stop = 30\<rparr>]"
proof -
  have h: "mset [\<lparr>Start = 20, Stop = 30\<rparr>, \<lparr>Start = 5, Stop = 9\<rparr>, \<lparr>Start = 0, Stop = 6\<rparr>] =
    mset [\<lparr>Start = 0, Stop = 6\<rparr>, \<lparr>Start = 20, Stop = 30\<rparr>, \<lparr>Start = 5, Stop = 9\<rparr>]"
    by simp
  have e: "mergeRanges [\<lparr>Start = 0, Stop = 6\<rparr>, \<lparr>Start = 20, Stop = 30\<rparr>, \<lparr>Start = 5, Stop = 9\<rparr>] =
     [\<lparr>Start = 0, Stop = 9\<rparr>, \<lparr>Start = 20, Stop = 30\<rparr>]"
    by (simp add: eval_defs)
  from mergeRanges_permutation_invariant [OF h] h e show ?thesis by blast
qed

section \<open>The forms of a token and the errors of Parse\<close>

text \<open>
  C9. A token of the suffix form is one that splits on \<open>"-"\<close> into an empty first part
  and a second part \<open>Y\<close>.  When \<open>Y\<close> parses as an integer \<open>y\<close> with \<open>0 \<le> y \<le> maxLen\<close>,
  the loop body of \<open>Parse\<close> produces \<open>[maxLen - y, maxLen]\<close> for it, and \<open>Parse\<close> on this
  token alone (behind the prefix) returns exactly this range.
\<close>

theorem Parse_suffix_form:
  assumes "Split r CHR ''-'' = [[], p1]" "Atoi p1 = Inr y" "0 \<le> y" "y \<le> maxLen"
  shows "parseRange r maxLen = Inr \<lparr>Start = maxLen - y, Stop = maxLen\<rparr> \<and>
         Parse [prefix @ r] prefix maxLen = Inr [\<lparr>Start = maxLen - y, Stop = maxLen\<rparr>]"
proof -
  have pr: "parseRange r maxLen = Inr \<lparr>Start = maxLen - y, Stop = maxLen\<rparr>"
    using assms by (rule parseRange_suffix)
  have "r = [] @ CHR ''-'' # p1" using assms(1) by (rule Split_two)
  moreover have "CHR '','' \<notin> set p1" using assms(2) by (rule Atoi_no_comma)
  ultimately have "CHR '','' \<notin> set r" by simp
  from Parse_single_token [OF this pr] pr show ?thesis by blast
qed

text \<open>\<open>Y = 0\<close> is accepted: \<open>"-0"\<close> with \<open>maxLen = 350\<close> gives the one-point range \<open>[350, 350]\<close>.\<close>

theorem Parse_suffix_form_witness:
  "Split ''-0'' CHR ''-'' = [[], ''0''] \<and> Atoi ''0'' = Inr 0 \<and> (0::int) \<le> 0 \<and> (0::int) \<le> 350 \<and>
   parseRange ''-0'' 350 = Inr \<lparr>Start = 350, Stop = 350\<rparr> \<and>
   Parse [''bytes=-0''] ''bytes='' 350 = Inr [\<lparr>Start = 350, Stop = 350\<rparr>]"
proof -
  have h: "Split ''-0'' CHR ''-'' = [[], ''0'']" "Atoi ''0'' = Inr 0" "(0::int) \<le> 0" "(0::int) \<le> 350"
    by (simp_all add: eval_defs)
  from Parse_suffix_form [OF h, of "''bytes=''"] h show ?thesis by simp
qed

text \<open>
  C6 says that \<open>Parse\<close> returns the sentinel \<open>Error\<close> exactly when a token does not
  split on \<open>"-"\<close> into two parts, or a parsed bound lies outside \<open>[0, maxLen]\<close>, or a
  closed range has start after stop.  The code parses both fields of a closed range
  before it compares any bound, and returns at the first failure.  So the token
  \<open>"99-b"\<close> with \<open>maxLen = 10\<close> has two parts and the parsed bound \<open>99\<close> outside
  \<open>[0, 10]\<close>, yet \<open>Parse\<close> returns the error of \<open>strconv.Atoi\<close> for \<open>"b"\<close>, not the
  sentinel.
\<close>

theorem Parse_parse_error_before_bounds_counterexample:
  "two_parts ''99-b'' \<and> bounds ''99-b'' = [99] \<and> bound_outside ''99-b'' 10 \<and>
   Parse [''bytes=99-b''] ''bytes='' 10 = Inl (NumError ''b'' ErrSyntax) \<and>
   Parse [''bytes=99-b''] ''bytes='' 10 \<noteq> Inl InvalidRange"
  by (simp add: two_parts_def bound_outside_def bounds_def fields_def eval_defs)

text \<open>
  C6, as the code has it.  \<open>Parse\<close> stops at the first token that fails and returns the
  error of that token, so its error is decided by the first token that is not accepted.
  \<open>Parse\<close> returns the sentinel \<open>Error\<close> exactly when that token does not split on \<open>"-"\<close>
  into two parts, or all its numeric fields parse and a bound lies outside \<open>[0, maxLen]\<close>
  or it is a closed range with start after stop.  \<open>Parse\<close> returns a \<open>strconv\<close> error
  exactly when that token has two parts and a numeric field that does not parse; the error
  is then the one \<open>strconv.Atoi\<close> returns for the first such field, unchanged, and carries
  the text of the field.  \<open>Parse\<close> returns no other error, and the two kinds differ.
\<close>

theorem Parse_error_kinds:
  "(Parse ranges prefix maxLen = Inl InvalidRange \<longleftrightarrow>
      (\<exists>pre r post. tokens ranges prefix = pre @ r # post \<and>
         list_all (\<lambda>u. accepted u maxLen) pre \<and>
         (\<not> two_parts r \<or>
          (first_bad_field r = None \<and> (bound_outside r maxLen \<or> start_after_stop r))))) \<and>
   (Parse ranges prefix maxLen = Inl (NumError s k) \<longleftrightarrow>
      (\<exists>pre r post. tokens ranges prefix = pre @ r # post \<and>
         list_all (\<lambda>u. accepted u maxLen) pre \<and>
         two_parts r \<and> first_bad_field r = Some s \<and> Atoi s = Inl (NumError s k))) \<and>
   Parse ranges prefix maxLen \<noteq> Inl (InvalidContentLength vs) \<and>
   InvalidRange \<noteq> NumError s k"
proof (intro conjI)
  show "Parse ranges prefix maxLen = Inl InvalidRange \<longleftrightarrow>
      (\<exists>pre r post. tokens ranges prefix = pre @ r # post \<and>
         list_all (\<lambda>u. accepted u maxLen) pre \<and>
         (\<not> two_parts r \<or>
          (first_bad_field r = None \<and> (bound_outside r maxLen \<or> start_after_stop r))))"
    unfolding Parse_Inl_iff parseTokens_Inl_iff parseRange_InvalidRange_iff first_bad_field_def ..
  show "Parse ranges prefix maxLen = Inl (NumError s k) \<longleftrightarrow>
      (\<exists>pre r post. tokens ranges prefix = pre @ r # post \<and>
         list_all (\<lambda>u. accepted u maxLen) pre \<and>
         two_parts r \<and> first_bad_field r = Some s \<and> Atoi s = Inl (NumError s k))"
    unfolding Parse_Inl_iff parseTokens_Inl_iff parseRange_NumError_iff first_bad_field_def ..
  show "Parse ranges prefix maxLen \<noteq> Inl (InvalidContentLength vs)"
    by (rule Parse_no_content_length_error)
  show "InvalidRange \<noteq> NumError s k" by simp
qed

text \<open>
  Two inputs whose second token fails: \<open>"7-3"\<close> (start after stop) and \<open>"7-x"\<close> (the field
  \<open>"x"\<close> is no integer).
\<close>

theorem Parse_error_kinds_witness:
  "tokens [''bytes=0-5,7-3''] ''bytes='' = [''0-5''] @ ''7-3'' # [] \<and>
   list_all (\<lambda>u. accepted u 10) [''0-5''] \<and> two_parts ''7-3'' \<and>
   first_bad_field ''7-3'' = None \<and> start_after_stop ''7-3'' \<and>
   Parse [''bytes=0-5,7-3''] ''bytes='' 10 = Inl InvalidRange \<and>
   tokens [''bytes=0-5,7-x''] ''bytes='' = [''0-5''] @ ''7-x'' # [] \<and>
   two_parts ''7-x'' \<and> first_bad_field ''7-x'' = Some ''x'' \<and>
   Atoi ''x'' = Inl (NumError ''x'' ErrSyntax) \<and>
   Parse [''bytes=0-5,7-x''] ''bytes='' 10 = Inl (NumError ''x'' ErrSyntax)"
proof -
  have a: "list_all (\<lambda>u. accepted u 10) [''0-5'']"
    by (simp add: accepted_def eval_defs)
  have t1: "tokens [''bytes=0-5,7-3''] ''bytes='' = [''0-5''] @ ''7-3'' # []"
    by (simp add: tokens_def TrimPrefix_def)
  have r1: "two_parts ''7-3''" "first_bad_field ''7-3'' = None" "start_after_stop ''7-3''"
    by (simp_all add: two_parts_def first_bad_field_def start_after_stop_def bounds_def
        fields_def parses_def eval_defs)
  have t2: "tokens [''bytes=0-5,7-x''] ''bytes='' = [''0-5''] @ ''7-x'' # []"
    by (simp add: tokens_def TrimPrefix_def)
  have r2: "two_parts ''7-x''" "first_bad_field ''7-x'' = Some ''x''"
    "Atoi ''x'' = Inl (NumError ''x'' ErrSyntax)"
    by (simp_all add: two_parts_def first_bad_field_def fields_def parses_def eval_defs)
  have 1: "Parse [''bytes=0-5,7-3''] ''bytes='' 10 = Inl InvalidRange"
    using Parse_error_kinds [of "[''bytes=0-5,7-3'']" "''bytes=''" 10 "''x''" ErrSyntax "[]"]
      t1 a r1 by blast
  have 2: "Parse [''bytes=0-5,7-x''] ''bytes='' 10 = Inl (NumError ''x'' ErrSyntax)"
    using Parse_error_kinds [of "[''bytes=0-5,7-x'']" "''bytes=''" 10 "''x''" ErrSyntax "[]"]
      t2 a r2 by blast
  from a t1 r1 1 t2 r2 2 show ?thesis by blast
qed

text \<open>
  C10. No part of a token split on \<open>"-"\<close> contains \<open>"-"\<close>, so a part that
  \<open>strconv.Atoi\<close> accepts has a value that is not negative.  Hence every bound \<open>Parse\<close>
  compares is non-negative, the comparisons \<open>x < 0\<close> and \<open>y < 0\<close> are never true, and
  whenever a token fails with the sentinel \<open>Error\<close> it has the wrong shape, or a bound
  above \<open>maxLen\<close>, or start after stop.
\<close>

theorem Parse_negative_bound_unreachable:
  "(\<forall>p\<in>set (Split r CHR ''-''). CHR ''-'' \<notin> set p \<and> (\<forall>v. Atoi p = Inr v \<longrightarrow> 0 \<le> v)) \<and>
   list_all (\<lambda>v. 0 \<le> v) (bounds r) \<and>
   (parseRange r maxLen = Inl InvalidRange \<longrightarrow>
      \<not> two_parts r \<or> bound_above r maxLen \<or> start_after_stop r)"
proof (intro conjI)
  show parts: "\<forall>p\<in>set (Split r CHR ''-''). CHR ''-'' \<notin> set p \<and> (\<forall>v. Atoi p = Inr v \<longrightarrow> 0 \<le> v)"
    using Split_no_sep Atoi_nonneg by blast
  have fld: "set (fields r) \<subseteq> set (Split r CHR ''-'')"
  proof (cases "two_parts r")
    case True
    then obtain p0 p1 where "Split r CHR ''-'' = [p0, p1]"
      using two_parts_iff by blast
    then show ?thesis by (simp add: fields_def)
  next
    case False
    then have "fields r = []"
      by (auto simp: two_parts_def fields_def split: list.splits)
    then show ?thesis by simp
  qed
  show nonneg: "list_all (\<lambda>v. 0 \<le> v) (bounds r)"
    using parts fld by (auto simp: bounds_def list_all_iff split: sum.splits)
  show "parseRange r maxLen = Inl InvalidRange \<longrightarrow>
      \<not> two_parts r \<or> bound_above r maxLen \<or> start_after_stop r"
  proof
    assume "parseRange r maxLen = Inl InvalidRange"
    then have "\<not> two_parts r \<or> bound_outside r maxLen \<or> start_after_stop r"
      by (auto simp: parseRange_InvalidRange_iff)
    moreover have "bound_outside r maxLen \<Longrightarrow> bound_above r maxLen"
      using nonneg by (auto simp: bound_outside_def bound_above_def list_all_iff list_ex_iff)
    ultimately show "\<not> two_parts r \<or> bound_above r maxLen \<or> start_after_stop r" by blast
  qed
qed

text \<open>The token \<open>"5-7"\<close> with \<open>maxLen = 3\<close>: rejected, for a bound above \<open>maxLen\<close>.\<close>

theorem Parse_negative_bound_unreachable_witness:
  "Split ''5-7'' CHR ''-'' = [''5'', ''7''] \<and> CHR ''-'' \<notin> set ''5'' \<and> Atoi ''5'' = Inr 5 \<and>
   (0::int) \<le> 5 \<and> parseRange ''5-7'' 3 = Inl InvalidRange \<and> two_parts ''5-7'' \<and>
   bound_above ''5-7'' 3 \<and> \<not> start_after_stop ''5-7''"
proof -
  have h: "Split ''5-7'' CHR ''-'' = [''5'', ''7'']" "Atoi ''5'' = Inr 5" "Atoi ''7'' = Inr 7"
    by (simp_all add: eval_defs)
  have b: "bounds ''5-7'' = [5, 7]" "two_parts ''5-7''"
    using h by (simp_all add: bounds_def fields_def two_parts_def)
  have e: "parseRange ''5-7'' 3 = Inl InvalidRange"
    using h by (simp add: parseRange_def)
  from Parse_negative_bound_unreachable [of "''5-7''" 3] h b e
  show ?thesis by (simp add: bound_above_def start_after_stop_def)
qed

section \<open>ParseHeader\<close>

text \<open>
  C5 says that \<open>ParseHeader\<close> answers a \<open>Content-Length\<close> that is missing or is no
  non-negative integer with the "invalid content length" error.  For a negative value it
  does not: \<open>strconv.Atoi\<close> accepts \<open>"-5"\<close>, and \<open>ParseHeader\<close> calls \<open>Parse\<close> with
  \<open>maxLen = -5\<close>, which rejects the range \<open>"bytes=0-1"\<close> with the sentinel \<open>Error\<close>.
\<close>

theorem ParseHeader_negative_length_counterexample:
  "Atoi ''-5'' = Inr (- 5) \<and>
   ParseHeader (map_of [(''Content-Length'', [''-5'']), (''Range'', [''bytes=0-1''])]) =
     Inl InvalidRange \<and>
   ParseHeader (map_of [(''Content-Length'', [''-5'']), (''Range'', [''bytes=0-1''])]) \<noteq>
     Inl (InvalidContentLength [''-5''])"
  by (simp add: eval_defs)

text \<open>
  C5, as the code has it.  \<open>ParseHeader\<close> returns the "invalid content length" error, with
  the raw values of the header, exactly when the first \<open>Content-Length\<close> value is no
  integer for \<open>strconv.Atoi\<close> (optional sign, decimal digits, 64 bits); a missing header
  is such a case.  Otherwise \<open>ParseHeader\<close> is \<open>Parse\<close> on the \<open>Range\<close> values with prefix
  \<open>"bytes="\<close> and the integer as \<open>maxLen\<close>, also when the integer is negative; with a
  negative integer and at least one \<open>Range\<close> value, \<open>Parse\<close> fails, with an error that is
  not the "invalid content length" error.
\<close>

theorem ParseHeader_content_length:
  "(ParseHeader h = Inl (InvalidContentLength (index h ''Content-Length'')) \<longleftrightarrow>
      \<not> parses (Get h ''Content-Length'')) \<and>
   (h ''Content-Length'' = None \<longrightarrow> \<not> parses (Get h ''Content-Length'')) \<and>
   (Atoi (Get h ''Content-Length'') = Inr n \<longrightarrow>
      ParseHeader h = Parse (index h ''Range'') ''bytes='' n \<and>
      (n < 0 \<and> index h ''Range'' \<noteq> [] \<longrightarrow>
         (\<exists>e. ParseHeader h = Inl e \<and> e \<noteq> InvalidContentLength (index h ''Content-Length''))))"
proof (intro conjI impI)
  show "ParseHeader h = Inl (InvalidContentLength (index h ''Content-Length'')) \<longleftrightarrow>
      \<not> parses (Get h ''Content-Length'')"
    by (cases "Atoi (Get h ''Content-Length'')")
       (simp_all add: ParseHeader_def parses_def Parse_no_content_length_error)
next
  assume "h ''Content-Length'' = None"
  then have "Get h ''Content-Length'' = []" by (simp add: Get_def index_def)
  then show "\<not> parses (Get h ''Content-Length'')"
    by (simp add: parses_def Atoi_def ParseInt_def)
next
  assume a: "Atoi (Get h ''Content-Length'') = Inr n"
  then show p: "ParseHeader h = Parse (index h ''Range'') ''bytes='' n"
    by (simp add: ParseHeader_def)
  assume "n < 0 \<and> index h ''Range'' \<noteq> []"
  then obtain e where "Parse (index h ''Range'') ''bytes='' n = Inl e"
    using Parse_negative_maxLen by blast
  with p Parse_no_content_length_error [of "index h ''Range''" "''bytes=''" n]
  show "\<exists>e. ParseHeader h = Inl e \<and> e \<noteq> InvalidContentLength (index h ''Content-Length'')"
    by auto
qed

text \<open>A header without \<open>Content-Length\<close>, and a header with \<open>Content-Length: -5\<close>.\<close>

theorem ParseHeader_content_length_witness:
  "map_of [(''Range'', [''bytes=0-1''])] ''Content-Length'' = None \<and>
   ParseHeader (map_of [(''Range'', [''bytes=0-1''])]) = Inl (InvalidContentLength []) \<and>
   Atoi (Get (map_of [(''Content-Length'', [''-5'']), (''Range'', [''bytes=0-1''])])
     ''Content-Length'') = Inr (- 5) \<and>
   (- 5 :: int) < 0 \<and>
   index (map_of [(''Content-Length'', [''-5'']), (''Range'', [''bytes=0-1''])]) ''Range'' \<noteq> [] \<and>
   ParseHeader (map_of [(''Content-Length'', [''-5'']), (''Range'', [''bytes=0-1''])]) =
     Parse [''bytes=0-1''] ''bytes='' (- 5)"
proof -
  let ?h1 = "map_of [(''Range'', [''bytes=0-1''])]"
  let ?h2 = "map_of [(''Content-Length'', [''-5'']), (''Range'', [''bytes=0-1''])]"
  have n: "?h1 ''Content-Length'' = None" by simp
  have i: "index ?h1 ''Content-Length'' = []" by (simp add: index_def)
  have a: "Atoi (Get ?h2 ''Content-Length'') = Inr (- 5)" by (simp add: eval_defs)
  have r: "index ?h2 ''Range'' = [''bytes=0-1'']" by (simp add: index_def)
  from ParseHeader_content_length [of ?h1] n i
  have 1: "ParseHeader ?h1 = Inl (InvalidContentLength [])" by simp
  from ParseHeader_content_length [of ?h2 "- 5"] a r
  have 2: "ParseHeader ?h2 = Parse [''bytes=0-1''] ''bytes='' (- 5)" by simp
  from n 1 a r 2 show ?thesis by simp
qed

end
